theory Spec2Isabelle
  imports Main "HOL-Library.Word" "HOL-Library.List_Lexorder"
begin

unbundle bit_operations_syntax

section \<open>Data model of package xid\<close>

text \<open>
  Go's \<^verbatim>\<open>byte\<close> is an 8-bit word, \<^verbatim>\<open>uint64\<close> a 64-bit word; \<^verbatim>\<open>x << n\<close> on a byte is
  \<open>push_bit n x\<close> (bits shifted out are lost), \<^verbatim>\<open>x >> n\<close> is \<open>drop_bit n x\<close>.
  A slice or array of bytes is a list. The type \<^verbatim>\<open>ID\<close> is \<^verbatim>\<open>[12]byte\<close>: a list whose
  length is \<open>rawLen\<close>; statements about identifiers carry that length as a hypothesis.
\<close>

type_synonym byte = "8 word"
type_synonym uint64 = "64 word"
type_synonym ID = "byte list"

text \<open>\<^verbatim>\<open>type Concurrency int8\<close> with its four named constants.\<close>

type_synonym Concurrency = "8 word"

definition NANO :: Concurrency where "NANO = 0"
definition LOW :: Concurrency where "LOW = 1"
definition MEDIUM :: Concurrency where "MEDIUM = 2"
definition HIGH :: Concurrency where "HIGH = 3"

definition encodedLen :: nat where "encodedLen = 20"
definition rawLen :: nat where "rawLen = 12"

text \<open>A Go string is a sequence of bytes; \<^verbatim>\<open>[]byte(s)\<close> and \<^verbatim>\<open>string(b)\<close> convert.\<close>

definition bytes_of_string :: "string \<Rightarrow> byte list" where
  "bytes_of_string s = map of_char s"

definition string_of_bytes :: "byte list \<Rightarrow> string" where
  "string_of_bytes b = map (\<lambda>c. char_of (unat c)) b"

definition encoding :: "byte list" where
  "encoding = bytes_of_string ''0123456789abcdefghijklmnopqrstuv''"

text \<open>
  Errors returned to the caller: \<^verbatim>\<open>ErrInvalidID\<close>, and the two errors that \<^verbatim>\<open>Scan\<close>
  builds with \<^verbatim>\<open>fmt.Errorf\<close>, which carry the length (\<^verbatim>\<open>%d\<close>) or the name of the dynamic
  type (\<^verbatim>\<open>%T\<close>) they report.
\<close>

datatype error =
    ErrInvalidID
  | ErrScanLength nat
  | ErrScanType string

text \<open>
  A run-time panic is not an error value: a function that can panic returns a \<open>result\<close>.
  \<open>IndexOutOfRange\<close> is Go's panic on an index beyond the length of a slice,
  \<open>RandomSource\<close> the explicit \<^verbatim>\<open>panic(fmt.Errorf("xid: cannot generate random number ..."))\<close>.
\<close>

datatype panic = IndexOutOfRange | RandomSource

datatype 'a result = Ok 'a | Panic panic

definition bind :: "'a result \<Rightarrow> ('a \<Rightarrow> 'b result) \<Rightarrow> 'b result" where
  "bind m f = (case m of Ok v \<Rightarrow> f v | Panic p \<Rightarrow> Panic p)"

text \<open>A checked read \<^verbatim>\<open>b[i]\<close> of a slice.\<close>

definition at :: "'a list \<Rightarrow> nat \<Rightarrow> 'a result" where
  "at b i = (if i < length b then Ok (b ! i) else Panic IndexOutOfRange)"

text \<open>
  The builtin \<^verbatim>\<open>copy(dst, src)\<close> overwrites the first \<open>min (len dst) (len src)\<close> elements
  of \<open>dst\<close>; the result is the destination afterwards.
\<close>

definition copy :: "'a list \<Rightarrow> 'a list \<Rightarrow> 'a list" where
  "copy dst src = take (length dst) src @ drop (length src) dst"

text \<open>
  Writing through the sub-slice \<^verbatim>\<open>b[lo:hi]\<close> changes \<open>b\<close> itself: \<open>with_slice b lo hi f\<close> is
  \<open>b\<close> after the slice has been replaced by \<open>f\<close> of it.
\<close>

definition with_slice :: "'a list \<Rightarrow> nat \<Rightarrow> nat \<Rightarrow> ('a list \<Rightarrow> 'a list) \<Rightarrow> 'a list" where
  "with_slice b lo hi f = take lo b @ f (take (hi - lo) (drop lo b)) @ drop hi b"

subsection \<open>The decoding table\<close>

text \<open>
  \<^verbatim>\<open>var dec [256]byte\<close> starts zeroed; \<^verbatim>\<open>init\<close> sets every entry to \<open>0xFF\<close> and then
  stores at each alphabet byte its position in \<open>encoding\<close>. Both loops run over a fixed
  index range.
\<close>

definition init :: "byte list \<Rightarrow> byte list" where
  "init dec0 =
     (let dec1 = fold (\<lambda>i d. d[i := 0xFF]) [0..<length dec0] dec0
      in fold (\<lambda>i d. d[unat (encoding ! i) := of_nat i]) [0..<length encoding] dec1)"

definition dec :: "byte list" where
  "dec = init (replicate 256 0)"

section \<open>The codec\<close>

text \<open>
  \<^verbatim>\<open>encode(dst, id []byte)\<close> reads \<open>id[0..11]\<close> and writes \<open>dst[0..19]\<close>, so it panics
  exactly when one of the two slices is shorter than that. In Go \<open>&\<close>, \<open><<\<close> and \<open>>>\<close>
  bind tighter than \<open>|\<close>.
\<close>

definition encode :: "byte list \<Rightarrow> byte list \<Rightarrow> byte list result" where
  "encode dst ident =
    (if length ident < 12 \<or> length dst < 20 then Panic IndexOutOfRange
     else Ok (dst
      [0 := encoding ! unat (drop_bit 3 (ident ! 0)),
       1 := encoding ! unat ((drop_bit 6 (ident ! 1) AND 0x1F) OR (push_bit 2 (ident ! 0) AND 0x1F)),
       2 := encoding ! unat (drop_bit 1 (ident ! 1) AND 0x1F),
       3 := encoding ! unat ((drop_bit 4 (ident ! 2) AND 0x1F) OR (push_bit 4 (ident ! 1) AND 0x1F)),
       4 := encoding ! unat (drop_bit 7 (ident ! 3) OR (push_bit 1 (ident ! 2) AND 0x1F)),
       5 := encoding ! unat (drop_bit 2 (ident ! 3) AND 0x1F),
       6 := encoding ! unat (drop_bit 5 (ident ! 4) OR (push_bit 3 (ident ! 3) AND 0x1F)),
       7 := encoding ! unat (ident ! 4 AND 0x1F),
       8 := encoding ! unat (drop_bit 3 (ident ! 5)),
       9 := encoding ! unat ((drop_bit 6 (ident ! 6) AND 0x1F) OR (push_bit 2 (ident ! 5) AND 0x1F)),
       10 := encoding ! unat (drop_bit 1 (ident ! 6) AND 0x1F),
       11 := encoding ! unat ((drop_bit 4 (ident ! 7) AND 0x1F) OR (push_bit 4 (ident ! 6) AND 0x1F)),
       12 := encoding ! unat (drop_bit 7 (ident ! 8) OR (push_bit 1 (ident ! 7) AND 0x1F)),
       13 := encoding ! unat (drop_bit 2 (ident ! 8) AND 0x1F),
       14 := encoding ! unat (drop_bit 5 (ident ! 9) OR (push_bit 3 (ident ! 8) AND 0x1F)),
       15 := encoding ! unat (ident ! 9 AND 0x1F),
       16 := encoding ! unat (drop_bit 3 (ident ! 10)),
       17 := encoding ! unat ((drop_bit 6 (ident ! 11) AND 0x1F) OR (push_bit 2 (ident ! 10) AND 0x1F)),
       18 := encoding ! unat (drop_bit 1 (ident ! 11) AND 0x1F),
       19 := encoding ! unat (push_bit 4 (ident ! 11) AND 0x1F)]))"

text \<open>\<^verbatim>\<open>String\<close> and \<^verbatim>\<open>MarshalText\<close> allocate the 20 bytes and encode into them.\<close>

definition String :: "ID \<Rightarrow> string result" where
  "String ident = bind (encode (replicate encodedLen 0) ident) (\<lambda>text. Ok (string_of_bytes text))"

definition MarshalText :: "ID \<Rightarrow> (byte list \<times> error option) result" where
  "MarshalText ident = bind (encode (replicate encodedLen 0) ident) (\<lambda>text. Ok (text, None))"

text \<open>
  \<^verbatim>\<open>decode(id *ID, src []byte)\<close> reads \<open>src[0..19]\<close>, so it panics exactly when \<open>src\<close> is
  shorter than that, and overwrites the twelve bytes of \<open>id\<close>; \<open>dec\<close> has 256 entries, so
  indexing it with a byte never fails. \<open>dec_at src i\<close> is the expression \<^verbatim>\<open>dec[src[i]]\<close>.
\<close>

definition dec_at :: "byte list \<Rightarrow> nat \<Rightarrow> byte" where
  "dec_at src i = dec ! unat (src ! i)"

definition decode :: "ID \<Rightarrow> byte list \<Rightarrow> ID result" where
  "decode ident src =
    (if length src < 20 then Panic IndexOutOfRange
     else Ok (ident
      [0 := push_bit 3 (dec_at src 0) OR drop_bit 2 (dec_at src 1),
       1 := push_bit 6 (dec_at src 1) OR push_bit 1 (dec_at src 2) OR drop_bit 4 (dec_at src 3),
       2 := push_bit 4 (dec_at src 3) OR drop_bit 1 (dec_at src 4),
       3 := push_bit 7 (dec_at src 4) OR push_bit 2 (dec_at src 5) OR drop_bit 3 (dec_at src 6),
       4 := push_bit 5 (dec_at src 6) OR dec_at src 7,
       5 := push_bit 3 (dec_at src 8) OR drop_bit 2 (dec_at src 9),
       6 := push_bit 6 (dec_at src 9) OR push_bit 1 (dec_at src 10) OR drop_bit 4 (dec_at src 11),
       7 := push_bit 4 (dec_at src 11) OR drop_bit 1 (dec_at src 12),
       8 := push_bit 7 (dec_at src 12) OR push_bit 2 (dec_at src 13) OR drop_bit 3 (dec_at src 14),
       9 := push_bit 5 (dec_at src 14) OR dec_at src 15,
       10 := push_bit 3 (dec_at src 16) OR drop_bit 2 (dec_at src 17),
       11 := push_bit 6 (dec_at src 17) OR push_bit 1 (dec_at src 18) OR drop_bit 4 (dec_at src 19)]))"

text \<open>
  The loop of \<^verbatim>\<open>UnmarshalText\<close> over the bytes of the text: it stops with the error at the
  first byte whose table entry is \<open>0xFF\<close>.
\<close>

fun all_in_alphabet :: "byte list \<Rightarrow> bool" where
  "all_in_alphabet [] = True"
| "all_in_alphabet (c # cs) = (if dec ! unat c = 0xFF then False else all_in_alphabet cs)"

text \<open>
  \<^verbatim>\<open>UnmarshalText\<close> has a pointer receiver: the result is the receiver afterwards together
  with the returned error (\<open>None\<close> is \<^verbatim>\<open>nil\<close>).
\<close>

definition UnmarshalText :: "ID \<Rightarrow> byte list \<Rightarrow> (ID \<times> error option) result" where
  "UnmarshalText ident text =
    (if length text \<noteq> encodedLen then Ok (ident, Some ErrInvalidID)
     else if \<not> all_in_alphabet text then Ok (ident, Some ErrInvalidID)
     else bind (decode ident text) (\<lambda>ident'. Ok (ident', None)))"

definition FromString :: "string \<Rightarrow> (ID \<times> error option) result" where
  "FromString s = UnmarshalText (replicate rawLen 0) (bytes_of_string s)"

section \<open>The generator\<close>

text \<open>
  \<^verbatim>\<open>binary.BigEndian.PutUint64(b, v)\<close> and \<^verbatim>\<open>binary.BigEndian.Uint64(b)\<close> of the standard
  library: both begin with the bounds check \<^verbatim>\<open>_ = b[7]\<close>; the first stores
  \<^verbatim>\<open>byte(v >> 56)\<close>, ..., \<^verbatim>\<open>byte(v)\<close> in \<open>b[0..7]\<close>, the second reads them back.
\<close>

definition PutUint64 :: "byte list \<Rightarrow> uint64 \<Rightarrow> byte list result" where
  "PutUint64 b v =
    (if length b < 8 then Panic IndexOutOfRange
     else Ok (b
      [0 := ucast (drop_bit 56 v),
       1 := ucast (drop_bit 48 v),
       2 := ucast (drop_bit 40 v),
       3 := ucast (drop_bit 32 v),
       4 := ucast (drop_bit 24 v),
       5 := ucast (drop_bit 16 v),
       6 := ucast (drop_bit 8 v),
       7 := ucast v]))"

definition Uint64 :: "byte list \<Rightarrow> uint64 result" where
  "Uint64 b =
    (if length b < 8 then Panic IndexOutOfRange
     else Ok (ucast (b ! 7) OR push_bit 8 (ucast (b ! 6)) OR push_bit 16 (ucast (b ! 5)) OR
              push_bit 24 (ucast (b ! 4)) OR push_bit 32 (ucast (b ! 3)) OR
              push_bit 40 (ucast (b ! 2)) OR push_bit 48 (ucast (b ! 1)) OR
              push_bit 56 (ucast (b ! 0))))"

text \<open>
  A \<^verbatim>\<open>time.Time\<close> is represented by its \<^verbatim>\<open>UnixNano()\<close>, an \<^verbatim>\<open>int64\<close>; the conversion
  \<^verbatim>\<open>uint64(t.UnixNano())\<close> keeps the 64 bits, and \<^verbatim>\<open>time.Unix(0, nanos)\<close> is the time
  with that many nanoseconds.

  The outcome of one call \<^verbatim>\<open>rand.Reader.Read(p)\<close> is an input of the model: \<open>None\<close> when
  the call returns an error, \<open>Some bs\<close> when it returns none and has stored the bytes
  \<open>bs\<close> at the start of \<open>p\<close>.
\<close>

type_synonym Time = "64 word"
type_synonym read_outcome = "byte list option"

definition NewFromTime :: "read_outcome \<Rightarrow> Time \<Rightarrow> ID result" where
  "NewFromTime rnd t =
     bind (PutUint64 (replicate rawLen 0) t) (\<lambda>ident.
       case rnd of
         None \<Rightarrow> Panic RandomSource
       | Some bs \<Rightarrow> Ok (with_slice ident 6 12 (\<lambda>p. copy p bs)))"

text \<open>
  The four \<^verbatim>\<open>Apply...Concurrence(id ID)\<close> functions take the array by value and return
  nothing. Each model returns the pair of the callee's own copy of the array after the
  assignments and the shared counter after \<^verbatim>\<open>atomic.AddUint64(&atomicCount, 1)\<close>, whose
  result \<open>adder\<close> is the incremented value.
\<close>

definition ApplyNanoConcurrence :: "ID \<Rightarrow> uint64 \<Rightarrow> ID \<times> uint64" where
  "ApplyNanoConcurrence ident atomicCount =
     (let adder = atomicCount + 1
      in (ident[6 := (ucast (push_bit 4 adder) AND 0xF0) OR (ident ! 6 AND 0xF)], adder))"

definition ApplyLowConcurrence :: "ID \<Rightarrow> uint64 \<Rightarrow> ID \<times> uint64" where
  "ApplyLowConcurrence ident atomicCount =
     (let adder = atomicCount + 1
      in (ident[6 := ucast adder], adder))"

definition ApplyMediumConcurrence :: "ID \<Rightarrow> uint64 \<Rightarrow> ID \<times> uint64" where
  "ApplyMediumConcurrence ident atomicCount =
     (let adder = atomicCount + 1
      in (ident[6 := ucast (drop_bit 8 adder), 7 := ucast adder], adder))"

definition ApplyHighConcurrence :: "ID \<Rightarrow> uint64 \<Rightarrow> ID \<times> uint64" where
  "ApplyHighConcurrence ident atomicCount =
     (let adder = atomicCount + 1
      in (ident[6 := ucast (drop_bit 16 adder), 7 := ucast (drop_bit 8 adder), 8 := ucast adder],
          adder))"

text \<open>
  \<^verbatim>\<open>NewWithConcurrence\<close> calls one of them on its local \<open>id\<close> and then returns that local
  \<open>id\<close>: the callee worked on a copy, so of the pair only the counter reaches the caller.
  The switch has no default case. The result is the identifier returned and the shared
  counter afterwards.
\<close>

definition NewWithConcurrence ::
  "Concurrency \<Rightarrow> Time \<Rightarrow> read_outcome \<Rightarrow> uint64 \<Rightarrow> (ID \<times> uint64) result" where
  "NewWithConcurrence currencyLevel t rnd atomicCount =
     bind (NewFromTime rnd t) (\<lambda>ident.
       if currencyLevel = NANO then Ok (ident, snd (ApplyNanoConcurrence ident atomicCount))
       else if currencyLevel = LOW then Ok (ident, snd (ApplyLowConcurrence ident atomicCount))
       else if currencyLevel = MEDIUM then Ok (ident, snd (ApplyMediumConcurrence ident atomicCount))
       else if currencyLevel = HIGH then Ok (ident, snd (ApplyHighConcurrence ident atomicCount))
       else Ok (ident, atomicCount))"

text \<open>
  \<^verbatim>\<open>randUInt64\<close> allocates \<^verbatim>\<open>make([]byte, 2)\<close>, lets the random source fill it and then
  reads \<open>b[0]\<close>, \<open>b[1]\<close>, \<open>b[2]\<close>, \<open>b[3]\<close> from left to right.
\<close>

definition randUInt64 :: "read_outcome \<Rightarrow> uint64 result" where
  "randUInt64 rnd =
     (case rnd of
        None \<Rightarrow> Panic RandomSource
      | Some bs \<Rightarrow>
          (let b = copy (replicate 2 0) bs
           in bind (at b 0) (\<lambda>b0.
              bind (at b 1) (\<lambda>b1.
              bind (at b 2) (\<lambda>b2.
              bind (at b 3) (\<lambda>b3.
                Ok (push_bit 32 (ucast b0) OR push_bit 16 (ucast b1) OR
                    push_bit 8 (ucast b2) OR ucast b3)))))))"

section \<open>Accessors and the database adapter\<close>

text \<open>
  \<^verbatim>\<open>Time\<close> copies \<open>id[0:6]\<close> to the front of eight zero bytes and reads them as a
  big-endian \<^verbatim>\<open>uint64\<close>.
\<close>

definition Time :: "ID \<Rightarrow> Time result" where
  "Time ident =
     (let nowBytes = with_slice (replicate 8 0) 0 6 (\<lambda>p. copy p (take 6 ident))
      in Uint64 nowBytes)"

text \<open>
  The dynamic value handed to \<^verbatim>\<open>Scan\<close>: a string, a byte slice, or a value of any other
  type, of which the model keeps only the name that \<^verbatim>\<open>%T\<close> prints.
\<close>

datatype "value" = StringVal string | BytesVal "byte list" | OtherVal string

definition Value :: "ID \<Rightarrow> value \<times> error option" where
  "Value ident = (BytesVal ident, None)"

definition Scan :: "ID \<Rightarrow> value \<Rightarrow> (ID \<times> error option) result" where
  "Scan ident v =
     (case v of
        StringVal val \<Rightarrow> UnmarshalText ident (bytes_of_string val)
      | BytesVal val \<Rightarrow>
          if length val \<noteq> 12 then Ok (ident, Some (ErrScanLength (length val)))
          else Ok (copy ident val, None)
      | OtherVal ty \<Rightarrow> Ok (ident, Some (ErrScanType ty)))"

section \<open>Auxiliary notions for the proofs\<close>

text \<open>
  The twenty 5-bit groups whose alphabet characters \<open>encode\<close> stores, in the order of the
  twenty assignments; \<open>encode_quintets\<close> below relates them to \<open>encode\<close>.
\<close>

definition quintets :: "byte list \<Rightarrow> byte list" where
  "quintets x =
     [drop_bit 3 (x ! 0),
      (drop_bit 6 (x ! 1) AND 0x1F) OR (push_bit 2 (x ! 0) AND 0x1F),
      drop_bit 1 (x ! 1) AND 0x1F,
      (drop_bit 4 (x ! 2) AND 0x1F) OR (push_bit 4 (x ! 1) AND 0x1F),
      drop_bit 7 (x ! 3) OR (push_bit 1 (x ! 2) AND 0x1F),
      drop_bit 2 (x ! 3) AND 0x1F,
      drop_bit 5 (x ! 4) OR (push_bit 3 (x ! 3) AND 0x1F),
      x ! 4 AND 0x1F,
      drop_bit 3 (x ! 5),
      (drop_bit 6 (x ! 6) AND 0x1F) OR (push_bit 2 (x ! 5) AND 0x1F),
      drop_bit 1 (x ! 6) AND 0x1F,
      (drop_bit 4 (x ! 7) AND 0x1F) OR (push_bit 4 (x ! 6) AND 0x1F),
      drop_bit 7 (x ! 8) OR (push_bit 1 (x ! 7) AND 0x1F),
      drop_bit 2 (x ! 8) AND 0x1F,
      drop_bit 5 (x ! 9) OR (push_bit 3 (x ! 8) AND 0x1F),
      x ! 9 AND 0x1F,
      drop_bit 3 (x ! 10),
      (drop_bit 6 (x ! 11) AND 0x1F) OR (push_bit 2 (x ! 10) AND 0x1F),
      drop_bit 1 (x ! 11) AND 0x1F,
      push_bit 4 (x ! 11) AND 0x1F]"

text \<open>
  The twelve bytes that \<open>decode\<close> assembles from the twenty table entries \<open>dec[src[i]]\<close>;
  \<open>decode_octets\<close> below relates them to \<open>decode\<close>.
\<close>

definition octets :: "byte list \<Rightarrow> byte list" where
  "octets q =
     [push_bit 3 (q ! 0) OR drop_bit 2 (q ! 1),
      push_bit 6 (q ! 1) OR push_bit 1 (q ! 2) OR drop_bit 4 (q ! 3),
      push_bit 4 (q ! 3) OR drop_bit 1 (q ! 4),
      push_bit 7 (q ! 4) OR push_bit 2 (q ! 5) OR drop_bit 3 (q ! 6),
      push_bit 5 (q ! 6) OR q ! 7,
      push_bit 3 (q ! 8) OR drop_bit 2 (q ! 9),
      push_bit 6 (q ! 9) OR push_bit 1 (q ! 10) OR drop_bit 4 (q ! 11),
      push_bit 4 (q ! 11) OR drop_bit 1 (q ! 12),
      push_bit 7 (q ! 12) OR push_bit 2 (q ! 13) OR drop_bit 3 (q ! 14),
      push_bit 5 (q ! 14) OR q ! 15,
      push_bit 3 (q ! 16) OR drop_bit 2 (q ! 17),
      push_bit 6 (q ! 17) OR push_bit 1 (q ! 18) OR drop_bit 4 (q ! 19)]"

text \<open>The number that a list of digits denotes in base \<open>B\<close>, most significant digit first.\<close>

fun val :: "nat \<Rightarrow> nat list \<Rightarrow> nat" where
  "val B [] = 0"
| "val B (n # ns) = n * B ^ length ns + val B ns"

section \<open>Facts about the tables\<close>

lemma encoding_bytes:
  "encoding = [0x30, 0x31, 0x32, 0x33, 0x34, 0x35, 0x36, 0x37, 0x38, 0x39,
               0x61, 0x62, 0x63, 0x64, 0x65, 0x66, 0x67, 0x68, 0x69, 0x6A, 0x6B,
               0x6C, 0x6D, 0x6E, 0x6F, 0x70, 0x71, 0x72, 0x73, 0x74, 0x75, 0x76]"
  by (simp add: encoding_def bytes_of_string_def)

lemma length_encoding: "length encoding = 32"
  by (simp add: encoding_bytes)

lemma length_dec: "length dec = 256"
  by code_simp

section \<open>Lists of a known length\<close>

lemma list20:
  "length xs = 20 \<Longrightarrow> \<exists>a0 a1 a2 a3 a4 a5 a6 a7 a8 a9 a10 a11 a12 a13 a14 a15 a16 a17 a18 a19.
     xs = [a0, a1, a2, a3, a4, a5, a6, a7, a8, a9, a10, a11, a12, a13, a14, a15, a16, a17, a18, a19]"
  by (simp add: numeral_eq_Suc length_Suc_conv) blast

lemma list12:
  "length xs = 12 \<Longrightarrow> \<exists>a0 a1 a2 a3 a4 a5 a6 a7 a8 a9 a10 a11.
     xs = [a0, a1, a2, a3, a4, a5, a6, a7, a8, a9, a10, a11]"
  by (simp add: numeral_eq_Suc length_Suc_conv) blast

section \<open>Bytes bit by bit\<close>

lemma mask5: "(x::byte) AND 0x1F = take_bit 5 x"
  by (simp add: take_bit_eq_mask mask_eq_exp_minus_1)

lemma byte_high_bit: "8 \<le> n \<Longrightarrow> \<not> bit (w::byte) n"
  by (auto dest: bit_imp_le_length)

lemma lt8_cases: "k < (8::nat) \<Longrightarrow> k \<in> {0, 1, 2, 3, 4, 5, 6, 7}"
  by auto

lemma byte_eq_iff:
  "(a::byte) = b \<longleftrightarrow>
     bit a 0 = bit b 0 \<and> bit a 1 = bit b 1 \<and> bit a 2 = bit b 2 \<and> bit a 3 = bit b 3 \<and>
     bit a 4 = bit b 4 \<and> bit a 5 = bit b 5 \<and> bit a 6 = bit b 6 \<and> bit a 7 = bit b 7"
  (is "?l \<longleftrightarrow> ?r")
proof
  assume r: ?r
  show ?l
  proof (rule bit_word_eqI)
    fix n assume "n < LENGTH(8)"
    then have "n < 8" by simp
    from lt8_cases [OF this] r show "bit a n = bit b n" by auto
  qed
qed simp

lemmas bit_calc = byte_eq_iff mask5 bit_simps byte_high_bit
  numeral_2_eq_2 [symmetric] numeral_3_eq_3 [symmetric]

section \<open>Encoding\<close>

lemma encode_quintets:
  assumes "length x = 12" and "length dst = 20"
  shows "encode dst x = Ok (map (\<lambda>q. encoding ! unat q) (quintets x))"
proof -
  from list20 [OF assms(2)]
  obtain a0 a1 a2 a3 a4 a5 a6 a7 a8 a9 a10 a11 a12 a13 a14 a15 a16 a17 a18 a19 where
    dst: "dst = [a0, a1, a2, a3, a4, a5, a6, a7, a8, a9, a10, a11, a12, a13, a14, a15, a16,
                 a17, a18, a19]"
    by blast
  show ?thesis
    using assms(1) unfolding dst
    by (simp add: encode_def quintets_def rawLen_def encodedLen_def)
qed

text \<open>
  C9. Encoding the identifier of twelve zero bytes gives the character \<open>0\<close> twenty times:
  as the string that \<open>String\<close> returns and as the bytes that \<open>MarshalText\<close> returns.
\<close>

theorem String_zero:
  "String [0, 0, 0, 0, 0, 0, 0, 0, 0, 0, 0, 0] = Ok (replicate 20 (CHR ''0'')) \<and>
   MarshalText [0, 0, 0, 0, 0, 0, 0, 0, 0, 0, 0, 0] = Ok (replicate 20 48, None) \<and>
   replicate 20 (CHR ''0'') = ''00000000000000000000''"
  by code_simp

lemma small_byte: "unat (q::byte) < 32 \<longleftrightarrow> take_bit 5 q = q"
proof -
  have "take_bit 5 q = q \<longleftrightarrow> unat (take_bit 5 q) = unat q"
    by (simp add: word_unat_eq_iff)
  also have "\<dots> \<longleftrightarrow> take_bit 5 (unat q) = unat q"
    by (simp add: unsigned_take_bit_eq)
  also have "\<dots> \<longleftrightarrow> unat q < 2 ^ 5"
    by (rule take_bit_nat_eq_self_iff)
  finally show ?thesis by simp
qed

lemma quintets_small: "q \<in> set (quintets x) \<Longrightarrow> unat q < 32"
  unfolding small_byte quintets_def
  by (auto simp add: bit_calc simp del: push_bit_Suc)

lemma dec_encoding_all: "list_all (\<lambda>i. dec ! unat (encoding ! i) = of_nat i) [0..<32]"
  by code_simp

lemma dec_encoding: "i < 32 \<Longrightarrow> dec ! unat (encoding ! i) = of_nat i"
  using dec_encoding_all by (simp add: list_all_iff)

lemma dec_encoding_byte: "unat (q::byte) < 32 \<Longrightarrow> dec ! unat (encoding ! unat q) = q"
  by (simp add: dec_encoding)

lemma quintets_decoded:
  "map (\<lambda>c. dec ! unat c) (map (\<lambda>q. encoding ! unat q) (quintets x)) = quintets x"
  unfolding map_map by (rule map_idI) (simp add: dec_encoding_byte quintets_small)

section \<open>Decoding\<close>

lemma decode_octets:
  assumes "length src = 20" and "length ident = 12"
  shows "decode ident src = Ok (octets (map (\<lambda>c. dec ! unat c) src))"
proof -
  from list12 [OF assms(2)]
  obtain a0 a1 a2 a3 a4 a5 a6 a7 a8 a9 a10 a11 where
    ident: "ident = [a0, a1, a2, a3, a4, a5, a6, a7, a8, a9, a10, a11]"
    by blast
  show ?thesis
    using assms(1) unfolding ident
    by (simp add: decode_def octets_def dec_at_def encodedLen_def)
qed

lemma octets_quintets:
  assumes "length x = 12"
  shows "octets (quintets x) = x"
proof -
  from list12 [OF assms]
  obtain a0 a1 a2 a3 a4 a5 a6 a7 a8 a9 a10 a11 where
    x: "x = [a0, a1, a2, a3, a4, a5, a6, a7, a8, a9, a10, a11]"
    by blast
  show ?thesis
    unfolding x octets_def quintets_def
    by (simp add: bit_calc del: push_bit_Suc)
qed

text \<open>
  C1. Round trip: for every identifier \<open>x\<close> of twelve bytes, \<open>encode\<close> succeeds with a text of
  twenty bytes, and \<open>decode\<close> of that text into any identifier stores exactly \<open>x\<close>.
\<close>

theorem decode_encode:
  assumes "length x = 12" and "length ident = 12" and "length dst = 20"
  shows "\<exists>text. encode dst x = Ok text \<and> length text = 20 \<and> decode ident text = Ok x"
proof -
  let ?text = "map (\<lambda>q. encoding ! unat q) (quintets x)"
  have len: "length ?text = 20" by (simp add: quintets_def)
  have "decode ident ?text = Ok x"
    by (simp only: decode_octets [OF len assms(2)] quintets_decoded octets_quintets [OF assms(1)])
  with encode_quintets [OF assms(1,3)] len show ?thesis by blast
qed

theorem decode_encode_witness:
  "encode (replicate 20 0) [77, 136, 225, 91, 96, 244, 134, 228, 40, 65, 45, 201] =
     Ok (bytes_of_string ''9m4e2mr0ui3e8a215n4g'') \<and>
   decode (replicate 12 0) (bytes_of_string ''9m4e2mr0ui3e8a215n4g'') =
     Ok [77, 136, 225, 91, 96, 244, 134, 228, 40, 65, 45, 201]"
proof -
  have e: "encode (replicate 20 0) [77, 136, 225, 91, 96, 244, 134, 228, 40, 65, 45, 201] =
     Ok (bytes_of_string ''9m4e2mr0ui3e8a215n4g'')"
    by code_simp
  from decode_encode [of "[77, 136, 225, 91, 96, 244, 134, 228, 40, 65, 45, 201]"
      "replicate 12 0" "replicate 20 0"]
  show ?thesis unfolding e by simp
qed

section \<open>Validation in \<open>UnmarshalText\<close>\<close>

lemma dec_back_all:
  "list_all (\<lambda>(n, v). v = 0xFF \<or> (unat v < 32 \<and> encoding ! unat v = of_nat n)) (zip [0..<256] dec)"
  by code_simp

lemma dec_back:
  assumes "dec ! unat c \<noteq> 0xFF"
  shows "unat (dec ! unat c) < 32 \<and> encoding ! unat (dec ! unat c) = c"
proof -
  have "unat c < 256"
    using unsigned_less [of c] by simp
  then have "(unat c, dec ! unat c) \<in> set (zip [0..<256] dec)"
    by (auto simp add: set_zip length_dec intro!: exI [of _ "unat c"])
  with dec_back_all
  have "dec ! unat c = 0xFF \<or>
    (unat (dec ! unat c) < 32 \<and> encoding ! unat (dec ! unat c) = of_nat (unat c))"
    unfolding list_all_iff by blast
  with assms show ?thesis by simp
qed

lemma dec_sentinel: "dec ! unat c = 0xFF \<longleftrightarrow> c \<notin> set encoding"
proof
  assume "dec ! unat c = 0xFF"
  show "c \<notin> set encoding"
  proof
    assume "c \<in> set encoding"
    then obtain i where i: "i < 32" and c: "c = encoding ! i"
      by (auto simp add: in_set_conv_nth length_encoding)
    with dec_encoding [OF i] \<open>dec ! unat c = 0xFF\<close> have "(of_nat i :: byte) = 0xFF" by simp
    then have "unat (of_nat i :: byte) = 255" by simp
    with i show False by (simp add: unat_of_nat)
  qed
next
  assume n: "c \<notin> set encoding"
  show "dec ! unat c = 0xFF"
  proof (rule ccontr)
    assume "dec ! unat c \<noteq> 0xFF"
    from dec_back [OF this] have "c \<in> set encoding"
      by (metis length_encoding nth_mem)
    with n show False by contradiction
  qed
qed

lemma all_in_alphabet_iff: "all_in_alphabet text \<longleftrightarrow> set text \<subseteq> set encoding"
  by (induction "text") (simp_all add: dec_sentinel)

lemma UnmarshalText_reject:
  "length text \<noteq> 20 \<or> \<not> set text \<subseteq> set encoding \<Longrightarrow>
     UnmarshalText ident text = Ok (ident, Some ErrInvalidID)"
  by (auto simp add: UnmarshalText_def encodedLen_def all_in_alphabet_iff)

lemma UnmarshalText_accept:
  "length text = 20 \<Longrightarrow> set text \<subseteq> set encoding \<Longrightarrow>
     UnmarshalText ident text = bind (decode ident text) (\<lambda>ident'. Ok (ident', None))"
  by (simp add: UnmarshalText_def encodedLen_def all_in_alphabet_iff)

lemma decode_Ok: "length text = 20 \<Longrightarrow> \<exists>ident'. decode ident text = Ok ident' \<and> length ident' = length ident"
  by (simp add: decode_def encodedLen_def)

text \<open>
  C6. For every input, \<open>UnmarshalText\<close> returns without panic; the error it returns is
  \<open>ErrInvalidID\<close> exactly when the length of the input is not 20 or some byte of it is
  outside the alphabet, and no other error occurs; whenever it returns that error, the
  receiver is the one it was called with.
\<close>

theorem UnmarshalText_invalid:
  "\<exists>ident' err. UnmarshalText ident text = Ok (ident', err) \<and>
     (err = Some ErrInvalidID \<longleftrightarrow> length text \<noteq> 20 \<or> (\<exists>c \<in> set text. c \<notin> set encoding)) \<and>
     (err = Some ErrInvalidID \<or> err = None) \<and>
     (err = Some ErrInvalidID \<longrightarrow> ident' = ident)"
proof (cases "length text \<noteq> 20 \<or> \<not> set text \<subseteq> set encoding")
  case True
  from UnmarshalText_reject [OF this] True show ?thesis by auto
next
  case False
  then have l: "length text = 20" and a: "set text \<subseteq> set encoding" by auto
  from decode_Ok [OF l] obtain ident' where "decode ident text = Ok ident'" by blast
  with UnmarshalText_accept [OF l a] have "UnmarshalText ident text = Ok (ident', None)"
    by (simp add: bind_def)
  with l a show ?thesis by auto
qed

theorem UnmarshalText_invalid_witness:
  "UnmarshalText [1, 2, 3, 4, 5, 6, 7, 8, 9, 10, 11, 12] (bytes_of_string ''123'') =
     Ok ([1, 2, 3, 4, 5, 6, 7, 8, 9, 10, 11, 12], Some ErrInvalidID) \<and>
   length (bytes_of_string ''123'') \<noteq> 20"
proof -
  from UnmarshalText_invalid [of "[1, 2, 3, 4, 5, 6, 7, 8, 9, 10, 11, 12]" "bytes_of_string ''123''"]
  obtain ident' err where
    u: "UnmarshalText [1, 2, 3, 4, 5, 6, 7, 8, 9, 10, 11, 12] (bytes_of_string ''123'') =
          Ok (ident', err)" and
    e: "err = Some ErrInvalidID \<longleftrightarrow>
          length (bytes_of_string ''123'') \<noteq> 20 \<or>
          (\<exists>c \<in> set (bytes_of_string ''123''). c \<notin> set encoding)" and
    k: "err = Some ErrInvalidID \<longrightarrow> ident' = [1, 2, 3, 4, 5, 6, 7, 8, 9, 10, 11, 12]"
    by blast
  have l: "length (bytes_of_string ''123'') \<noteq> 20"
    by (simp add: bytes_of_string_def)
  with e have "err = Some ErrInvalidID" by simp
  with k u l show ?thesis by simp
qed

section \<open>Texts that are accepted\<close>

lemma dec_entries: "map (\<lambda>c. dec ! unat c) encoding = map of_nat [0..<32]"
  by (rule nth_equalityI) (simp_all add: length_encoding dec_encoding)

lemma dec_digits:
  "dec ! 48 = 0" "dec ! 49 = 1" "dec ! 50 = 2" "dec ! 51 = 3" "dec ! 52 = 4" "dec ! 53 = 5"
  "dec ! 54 = 6" "dec ! 55 = 7" "dec ! 56 = 8" "dec ! 57 = 9" "dec ! 97 = 10" "dec ! 98 = 11"
  "dec ! 99 = 12" "dec ! 100 = 13" "dec ! 101 = 14" "dec ! 102 = 15" "dec ! 103 = 16"
  "dec ! 104 = 17" "dec ! 105 = 18" "dec ! 106 = 19" "dec ! 107 = 20" "dec ! 108 = 21"
  "dec ! 109 = 22" "dec ! 110 = 23" "dec ! 111 = 24" "dec ! 112 = 25" "dec ! 113 = 26"
  "dec ! 114 = 27" "dec ! 115 = 28" "dec ! 116 = 29" "dec ! 117 = 30" "dec ! 118 = 31"
  using dec_entries by (simp_all add: encoding_bytes upt_rec [of _ "numeral _"] upt_rec [of 0])

lemma UnmarshalText_eval:
  assumes "length text = 20" and "set text \<subseteq> set encoding" and "decode ident text = Ok ident'"
  shows "UnmarshalText ident text = Ok (ident', None)"
  using UnmarshalText_accept [OF assms(1,2)] assms(3) by (simp add: bind_def)

lemmas decode_eval = decode_def dec_at_def encodedLen_def bytes_of_string_def dec_digits

lemma decode_padding:
  assumes "length src = 20" and "drop_bit 4 (dec ! unat c) = drop_bit 4 (dec ! unat (src ! 19))"
  shows "decode ident (src[19 := c]) = decode ident src"
  using assms by (simp add: decode_def dec_at_def encodedLen_def)

text \<open>
  C10. \<open>UnmarshalText\<close> accepts every text of twenty alphabet bytes. Of the table entry of
  the last byte \<open>decode\<close> uses only \<open>dec[src[19]] >> 4\<close>: replacing the last byte by any
  alphabet byte whose entry agrees with it above the four low-order bits gives the same
  identifier. So the text \<open>00000000000000000001\<close> is accepted and decodes to twelve zero
  bytes, whose encoding is the different text \<open>00000000000000000000\<close>.
\<close>

theorem UnmarshalText_noncanonical:
  "(length text = 20 \<and> set text \<subseteq> set encoding \<longrightarrow>
      (\<exists>ident'. UnmarshalText ident text = Ok (ident', None) \<and>
         (\<forall>c \<in> set encoding.
            drop_bit 4 (dec ! unat c) = drop_bit 4 (dec ! unat (text ! 19)) \<longrightarrow>
            UnmarshalText ident (text[19 := c]) = Ok (ident', None)))) \<and>
   UnmarshalText [0, 0, 0, 0, 0, 0, 0, 0, 0, 0, 0, 0] (bytes_of_string ''00000000000000000001'') =
     Ok ([0, 0, 0, 0, 0, 0, 0, 0, 0, 0, 0, 0], None) \<and>
   encode (replicate 20 0) [0, 0, 0, 0, 0, 0, 0, 0, 0, 0, 0, 0] =
     Ok (bytes_of_string ''00000000000000000000'') \<and>
   bytes_of_string ''00000000000000000000'' \<noteq> bytes_of_string ''00000000000000000001''"
proof (intro conjI impI)
  assume h: "length text = 20 \<and> set text \<subseteq> set encoding"
  then have l: "length text = 20" and a: "set text \<subseteq> set encoding" by auto
  from decode_Ok [OF l] obtain ident' where d: "decode ident text = Ok ident'" by blast
  have u: "UnmarshalText ident text = Ok (ident', None)"
    by (rule UnmarshalText_eval [OF l a d])
  have "UnmarshalText ident (text[19 := c]) = Ok (ident', None)"
    if c: "c \<in> set encoding" and
       p: "drop_bit 4 (dec ! unat c) = drop_bit 4 (dec ! unat (text ! 19))" for c
  proof (rule UnmarshalText_eval)
    show "length (text[19 := c]) = 20" using l by simp
    show "set (text[19 := c]) \<subseteq> set encoding"
      using a c by (meson insert_subset set_update_subset_insert subset_trans)
    show "decode ident (text[19 := c]) = Ok ident'"
      using decode_padding [OF l p] d by simp
  qed
  with u show "\<exists>ident'. UnmarshalText ident text = Ok (ident', None) \<and>
         (\<forall>c \<in> set encoding.
            drop_bit 4 (dec ! unat c) = drop_bit 4 (dec ! unat (text ! 19)) \<longrightarrow>
            UnmarshalText ident (text[19 := c]) = Ok (ident', None))"
    by blast
next
  show "UnmarshalText [0, 0, 0, 0, 0, 0, 0, 0, 0, 0, 0, 0]
          (bytes_of_string ''00000000000000000001'') =
        Ok ([0, 0, 0, 0, 0, 0, 0, 0, 0, 0, 0, 0], None)"
    by (rule UnmarshalText_eval) (simp_all add: decode_eval encoding_bytes)
next
  show "encode (replicate 20 0) [0, 0, 0, 0, 0, 0, 0, 0, 0, 0, 0, 0] =
          Ok (bytes_of_string ''00000000000000000000'')"
    by code_simp
next
  show "bytes_of_string ''00000000000000000000'' \<noteq> bytes_of_string ''00000000000000000001''"
    by (simp add: bytes_of_string_def)
qed

theorem UnmarshalText_noncanonical_witness:
  "UnmarshalText [0, 0, 0, 0, 0, 0, 0, 0, 0, 0, 0, 0] (bytes_of_string ''vvvvvvvvvvvvvvvvvvvg'') =
     Ok ([255, 255, 255, 255, 255, 255, 255, 255, 255, 255, 255, 255], None) \<and>
   UnmarshalText [0, 0, 0, 0, 0, 0, 0, 0, 0, 0, 0, 0] (bytes_of_string ''vvvvvvvvvvvvvvvvvvvv'') =
     Ok ([255, 255, 255, 255, 255, 255, 255, 255, 255, 255, 255, 255], None)"
proof -
  let ?t = "bytes_of_string ''vvvvvvvvvvvvvvvvvvvg''"
  let ?z = "[0, 0, 0, 0, 0, 0, 0, 0, 0, 0, 0, 0] :: byte list"
  have l: "length ?t = 20 \<and> set ?t \<subseteq> set encoding"
    by (simp add: bytes_of_string_def encoding_bytes)
  have c: "118 \<in> set encoding" by (simp add: encoding_bytes)
  have p: "drop_bit 4 (dec ! unat (118 :: byte)) = drop_bit 4 (dec ! unat (?t ! 19))"
    by (simp add: decode_eval)
  have t: "?t[19 := 118] = bytes_of_string ''vvvvvvvvvvvvvvvvvvvv''"
    by (simp add: bytes_of_string_def)
  have e: "UnmarshalText ?z ?t =
     Ok ([255, 255, 255, 255, 255, 255, 255, 255, 255, 255, 255, 255], None)"
    by (rule UnmarshalText_eval) (simp_all add: decode_eval encoding_bytes)
  from UnmarshalText_noncanonical [of ?t ?z] l
  obtain ident' where "UnmarshalText ?z ?t = Ok (ident', None)" and
    "\<forall>c \<in> set encoding.
        drop_bit 4 (dec ! unat c) = drop_bit 4 (dec ! unat (?t ! 19)) \<longrightarrow>
        UnmarshalText ?z (?t[19 := c]) = Ok (ident', None)"
    by blast
  with e c p t show ?thesis by (metis Pair_inject result.inject)
qed

section \<open>Properties of \<open>Scan\<close> and \<open>Value\<close>\<close>

lemma copy_same_length: "length dst = length src \<Longrightarrow> copy dst src = src"
  by (simp add: copy_def)

lemma Scan_StringVal: "Scan ident (StringVal s) = UnmarshalText ident (bytes_of_string s)"
  by (simp add: Scan_def)

lemma length_bytes_of_string: "length (bytes_of_string s) = length s"
  by (simp add: bytes_of_string_def)

text \<open>
  C8, in the form that holds of the code. \<open>Scan\<close> into an identifier succeeds exactly on a
  string that is a valid text form
  (twenty bytes, all in the alphabet) and on a byte slice of length 12, which it copies.
  A string is handed to \<open>UnmarshalText\<close>, so an invalid one, whatever its length, is
  rejected with \<open>ErrInvalidID\<close>, which carries neither a length nor a type; a byte slice of another length is rejected with the error that reports
  its length, a value of any other type with the error that reports its type; a rejected
  value leaves the identifier as it was. \<open>Value\<close> returns the twelve bytes and no error.
\<close>

theorem Scan_Value:
  assumes "length ident = 12"
  shows
   "((\<exists>ident'. Scan ident v = Ok (ident', None)) \<longleftrightarrow>
       (\<exists>s. v = StringVal s \<and> length s = 20 \<and> set (bytes_of_string s) \<subseteq> set encoding) \<or>
       (\<exists>b. v = BytesVal b \<and> length b = 12)) \<and>
    (\<forall>s. v = StringVal s \<longrightarrow> Scan ident v = UnmarshalText ident (bytes_of_string s)) \<and>
    (\<forall>s. v = StringVal s \<and> \<not> (length s = 20 \<and> set (bytes_of_string s) \<subseteq> set encoding) \<longrightarrow>
        Scan ident v = Ok (ident, Some ErrInvalidID)) \<and>
    (\<forall>b. v = BytesVal b \<and> length b = 12 \<longrightarrow> Scan ident v = Ok (b, None)) \<and>
    (\<forall>b. v = BytesVal b \<and> length b \<noteq> 12 \<longrightarrow>
        Scan ident v = Ok (ident, Some (ErrScanLength (length b)))) \<and>
    (\<forall>ty. v = OtherVal ty \<longrightarrow> Scan ident v = Ok (ident, Some (ErrScanType ty))) \<and>
    Value ident = (BytesVal ident, None)"
proof (cases v)
  case (StringVal s)
  show ?thesis
  proof (cases "length s = 20 \<and> set (bytes_of_string s) \<subseteq> set encoding")
    case True
    then have l: "length (bytes_of_string s) = 20" and a: "set (bytes_of_string s) \<subseteq> set encoding"
      by (simp_all add: length_bytes_of_string)
    from decode_Ok [OF l] obtain ident' where "decode ident (bytes_of_string s) = Ok ident'"
      by blast
    from UnmarshalText_eval [OF l a this] True StringVal show ?thesis
      by (auto simp add: Scan_def Value_def)
  next
    case False
    then have "length (bytes_of_string s) \<noteq> 20 \<or> \<not> set (bytes_of_string s) \<subseteq> set encoding"
      by (simp add: length_bytes_of_string)
    from UnmarshalText_reject [OF this] False StringVal show ?thesis
      by (auto simp add: Scan_def Value_def)
  qed
next
  case (BytesVal b)
  with assms show ?thesis
    by (auto simp add: Scan_def Value_def copy_same_length)
next
  case (OtherVal ty)
  then show ?thesis
    by (auto simp add: Scan_def Value_def)
qed

theorem Scan_Value_witness:
  "Scan [0, 0, 0, 0, 0, 0, 0, 0, 0, 0, 0, 0] (BytesVal [77, 136, 225, 91, 96, 244, 134, 228, 40, 65, 45, 201]) =
     Ok ([77, 136, 225, 91, 96, 244, 134, 228, 40, 65, 45, 201], None) \<and>
   Scan [0, 0, 0, 0, 0, 0, 0, 0, 0, 0, 0, 0] (BytesVal [1, 2, 3]) =
     Ok ([0, 0, 0, 0, 0, 0, 0, 0, 0, 0, 0, 0], Some (ErrScanLength 3)) \<and>
   Scan [0, 0, 0, 0, 0, 0, 0, 0, 0, 0, 0, 0] (OtherVal ''int'') =
     Ok ([0, 0, 0, 0, 0, 0, 0, 0, 0, 0, 0, 0], Some (ErrScanType ''int'')) \<and>
   Scan [0, 0, 0, 0, 0, 0, 0, 0, 0, 0, 0, 0] (StringVal ''123'') =
     Ok ([0, 0, 0, 0, 0, 0, 0, 0, 0, 0, 0, 0], Some ErrInvalidID)"
  using
    Scan_Value [of "[0, 0, 0, 0, 0, 0, 0, 0, 0, 0, 0, 0]"
      "BytesVal [77, 136, 225, 91, 96, 244, 134, 228, 40, 65, 45, 201]"]
    Scan_Value [of "[0, 0, 0, 0, 0, 0, 0, 0, 0, 0, 0, 0]" "BytesVal [1, 2, 3]"]
    Scan_Value [of "[0, 0, 0, 0, 0, 0, 0, 0, 0, 0, 0, 0]" "OtherVal ''int''"]
    Scan_Value [of "[0, 0, 0, 0, 0, 0, 0, 0, 0, 0, 0, 0]" "StringVal ''123''"]
  by (auto simp add: numeral_3_eq_3)

text \<open>
  C8 as stated fails: every other length is not rejected with an error that reports it.
  The string \<open>123\<close> has length 3, not 20, and \<open>Scan\<close> rejects it with \<open>ErrInvalidID\<close>,
  which is neither the error that reports the length 3 nor the error that reports the type
  \<open>string\<close>.
\<close>

theorem Scan_string_length_counterexample:
  "Scan [0, 0, 0, 0, 0, 0, 0, 0, 0, 0, 0, 0] (StringVal ''123'') =
     Ok ([0, 0, 0, 0, 0, 0, 0, 0, 0, 0, 0, 0], Some ErrInvalidID) \<and>
   length ''123'' = 3 \<and> (3 :: nat) \<noteq> 20 \<and>
   ErrInvalidID \<noteq> ErrScanLength 3 \<and>
   ErrInvalidID \<noteq> ErrScanType ''string''"
proof -
  have "length (bytes_of_string ''123'') \<noteq> 20 \<or>
        \<not> set (bytes_of_string ''123'') \<subseteq> set encoding"
    by (simp add: bytes_of_string_def)
  from UnmarshalText_reject [OF this, of "[0, 0, 0, 0, 0, 0, 0, 0, 0, 0, 0, 0]"]
  show ?thesis
    by (simp add: Scan_StringVal)
qed

section \<open>Properties of the generator and of \<open>Time\<close>\<close>

lemma r12: "replicate 12 (0::byte) = [0, 0, 0, 0, 0, 0, 0, 0, 0, 0, 0, 0]"
  by (simp add: numeral_eq_Suc)

lemma r8: "replicate 8 (0::byte) = [0, 0, 0, 0, 0, 0, 0, 0]"
  by (simp add: numeral_eq_Suc)

lemma list6:
  "length xs = 6 \<Longrightarrow> \<exists>a0 a1 a2 a3 a4 a5. xs = [a0, a1, a2, a3, a4, a5]"
  by (simp add: numeral_eq_Suc length_Suc_conv) blast

lemma NewFromTime_bytes:
  assumes "length bs = 6"
  shows "NewFromTime (Some bs) t =
     Ok ([ucast (drop_bit 56 t), ucast (drop_bit 48 t), ucast (drop_bit 40 t),
          ucast (drop_bit 32 t), ucast (drop_bit 24 t), ucast (drop_bit 16 t)] @ bs)"
proof -
  from list6 [OF assms] obtain a0 a1 a2 a3 a4 a5 where bs: "bs = [a0, a1, a2, a3, a4, a5]"
    by blast
  show ?thesis
    unfolding bs
    by (simp add: NewFromTime_def PutUint64_def rawLen_def r12 bind_def with_slice_def copy_def)
qed

lemma Time_bytes:
  "Time (a0 # a1 # a2 # a3 # a4 # a5 # rest) =
     Ok (push_bit 16 (ucast a5) OR push_bit 24 (ucast a4) OR push_bit 32 (ucast a3) OR
         push_bit 40 (ucast a2) OR push_bit 48 (ucast a1) OR push_bit 56 (ucast a0))"
  by (simp add: Time_def Uint64_def r8 with_slice_def copy_def)

lemma bit_byte_of:
  "bit (push_bit k (ucast (ucast (drop_bit k t) :: byte)) :: uint64) n \<longleftrightarrow>
     k \<le> n \<and> n < k + 8 \<and> bit (t :: uint64) n"
  by (auto simp add: bit_simps dest: bit_imp_le_length)

lemma bit_clear16:
  "bit ((t :: uint64) AND NOT 0xFFFF) n \<longleftrightarrow> 16 \<le> n \<and> bit t n"
proof -
  have m: "(0xFFFF :: uint64) = mask 16"
    by (simp add: mask_eq_exp_minus_1)
  show ?thesis
    unfolding m
    by (auto simp add: bit_simps dest: bit_imp_le_length)
qed

lemma be48_high:
  "push_bit 16 (ucast (ucast (drop_bit 16 t) :: byte)) OR
   push_bit 24 (ucast (ucast (drop_bit 24 t) :: byte)) OR
   push_bit 32 (ucast (ucast (drop_bit 32 t) :: byte)) OR
   push_bit 40 (ucast (ucast (drop_bit 40 t) :: byte)) OR
   push_bit 48 (ucast (ucast (drop_bit 48 t) :: byte)) OR
   push_bit 56 (ucast (ucast (drop_bit 56 t) :: byte)) = (t :: uint64) AND NOT 0xFFFF"
  (is "?l = ?r")
proof (rule bit_word_eqI)
  fix n assume "n < LENGTH(64)"
  then have n: "n < 64" by simp
  have "bit ?l n \<longleftrightarrow>
     (16 \<le> n \<and> n < 16 + 8 \<or> 24 \<le> n \<and> n < 24 + 8 \<or> 32 \<le> n \<and> n < 32 + 8 \<or>
      40 \<le> n \<and> n < 40 + 8 \<or> 48 \<le> n \<and> n < 48 + 8 \<or> 56 \<le> n \<and> n < 56 + 8) \<and> bit t n"
    unfolding bit_or_iff bit_byte_of by blast
  also have "\<dots> \<longleftrightarrow> 16 \<le> n \<and> bit t n"
    using n by auto
  finally show "bit ?l n = bit ?r n"
    by (simp only: bit_clear16)
qed

lemma bit_byte_shift:
  "bit (ucast (drop_bit s (t :: uint64)) :: byte) j \<longleftrightarrow> j < 8 \<and> bit t (s + j)"
  by (auto simp add: bit_simps)

lemma lt6_cases: "i < (6::nat) \<Longrightarrow> i \<in> {0, 1, 2, 3, 4, 5}"
  by auto

lemma length_copy: "length (copy dst src) = length dst"
  by (auto simp add: copy_def)

text \<open>
  C4, in the form that holds of the code. \<open>NewFromTime\<close> writes the eight big-endian bytes of the nanosecond value into
  \<open>id[0..8)\<close> and then lets the random source overwrite \<open>id[6..12)\<close>. So for every time
  \<open>t\<close>, when the random source delivers six bytes, \<open>id[0..6)\<close> holds the six most
  significant bytes of the 64-bit value, most significant first: bit \<open>j\<close> of byte \<open>i\<close> is bit
  \<open>56 - 8 i + j\<close> of \<open>t\<close>, that is bits 16 to 63; and \<open>id[6..12)\<close> holds the random bytes.
\<close>

theorem NewFromTime_layout:
  assumes "length bs = 6"
  shows "\<exists>ident. NewFromTime (Some bs) t = Ok ident \<and> length ident = 12 \<and>
     take 6 ident =
       [ucast (drop_bit 56 t), ucast (drop_bit 48 t), ucast (drop_bit 40 t),
        ucast (drop_bit 32 t), ucast (drop_bit 24 t), ucast (drop_bit 16 t)] \<and>
     (\<forall>i<6. \<forall>j<8. bit (ident ! i) j = bit t (56 - 8 * i + j)) \<and>
     drop 6 ident = bs"
proof -
  let ?hi = "[ucast (drop_bit 56 t), ucast (drop_bit 48 t), ucast (drop_bit 40 t),
        ucast (drop_bit 32 t), ucast (drop_bit 24 t), ucast (drop_bit 16 t)] :: byte list"
  have n: "NewFromTime (Some bs) t = Ok (?hi @ bs)"
    by (rule NewFromTime_bytes [OF assms])
  have b: "bit ((?hi @ bs) ! i) j = bit t (56 - 8 * i + j)" if "i < 6" and "j < 8" for i j
    using lt6_cases [OF that(1)] that(2) by (auto simp add: bit_byte_shift)
  from n b assms show ?thesis by simp
qed

theorem NewFromTime_layout_witness:
  "NewFromTime (Some [9, 10, 11, 12, 13, 14]) 0x0102030405060708 =
     Ok [1, 2, 3, 4, 5, 6, 9, 10, 11, 12, 13, 14]"
proof -
  from NewFromTime_layout [of "[9, 10, 11, 12, 13, 14]" "0x0102030405060708"]
  obtain ident where
    "NewFromTime (Some [9, 10, 11, 12, 13, 14]) 0x0102030405060708 = Ok ident" and
    "length ident = 12" and
    "take 6 ident =
       [ucast (drop_bit 56 (0x0102030405060708 :: uint64)),
        ucast (drop_bit 48 (0x0102030405060708 :: uint64)),
        ucast (drop_bit 40 (0x0102030405060708 :: uint64)),
        ucast (drop_bit 32 (0x0102030405060708 :: uint64)),
        ucast (drop_bit 24 (0x0102030405060708 :: uint64)),
        ucast (drop_bit 16 (0x0102030405060708 :: uint64))]" and
    "drop 6 ident = [9, 10, 11, 12, 13, 14]"
    by auto
  moreover have "ident = take 6 ident @ drop 6 ident" by simp
  ultimately show ?thesis by (simp add: drop_bit_eq_div)
qed

text \<open>
  C4 as stated fails: for the nanosecond value \<open>0x0102030405060708\<close> the first six bytes of
  the identifier are \<open>01 02 03 04 05 06\<close>, whereas the low-order 48 bits, big-endian, are
  \<open>03 04 05 06 07 08\<close>.
\<close>

theorem NewFromTime_low48_counterexample:
  "NewFromTime (Some [9, 10, 11, 12, 13, 14]) 0x0102030405060708 =
     Ok [1, 2, 3, 4, 5, 6, 9, 10, 11, 12, 13, 14] \<and>
   take 6 [1, 2, 3, 4, 5, 6, 9, 10, 11, 12, 13, 14 :: byte] \<noteq>
     [ucast (drop_bit 40 (0x0102030405060708 :: uint64)),
      ucast (drop_bit 32 (0x0102030405060708 :: uint64)),
      ucast (drop_bit 24 (0x0102030405060708 :: uint64)),
      ucast (drop_bit 16 (0x0102030405060708 :: uint64)),
      ucast (drop_bit 8 (0x0102030405060708 :: uint64)),
      ucast (0x0102030405060708 :: uint64)]"
  by (simp add: NewFromTime_bytes drop_bit_eq_div)

text \<open>
  C5, in the form that holds of the code. \<open>Time\<close> puts \<open>id[0..6)\<close> into the six most significant bytes of a 64-bit
  big-endian value whose two least significant bytes are zero. For an identifier generated
  from the nanosecond value \<open>t\<close> it therefore returns \<open>t\<close> with its low 16 bits cleared and
  its high 48 bits preserved.
\<close>

theorem Time_NewFromTime:
  assumes "length bs = 6"
  shows "\<exists>ident. NewFromTime (Some bs) t = Ok ident \<and> Time ident = Ok (t AND NOT 0xFFFF)"
proof -
  have "Time ([ucast (drop_bit 56 t), ucast (drop_bit 48 t), ucast (drop_bit 40 t),
          ucast (drop_bit 32 t), ucast (drop_bit 24 t), ucast (drop_bit 16 t)] @ bs) =
        Ok (t AND NOT 0xFFFF)"
    by (simp only: append_Cons Time_bytes be48_high)
  with NewFromTime_bytes [OF assms, of t] show ?thesis by simp
qed

theorem Time_NewFromTime_witness:
  "NewFromTime (Some [9, 10, 11, 12, 13, 14]) 0x0102030405060708 =
     Ok [1, 2, 3, 4, 5, 6, 9, 10, 11, 12, 13, 14] \<and>
   Time [1, 2, 3, 4, 5, 6, 9, 10, 11, 12, 13, 14] = Ok 0x0102030405060000"
proof -
  have n: "NewFromTime (Some [9, 10, 11, 12, 13, 14]) 0x0102030405060708 =
     Ok [1, 2, 3, 4, 5, 6, 9, 10, 11, 12, 13, 14]"
    by (simp add: NewFromTime_bytes drop_bit_eq_div)
  have m: "(0x0102030405060708 :: uint64) AND NOT 0xFFFF = 0x0102030405060000"
    by simp
  from Time_NewFromTime [of "[9, 10, 11, 12, 13, 14]" "0x0102030405060708"] n m
  show ?thesis by simp
qed

text \<open>
  C5 as stated fails: for the identifier generated from \<open>0x0102030405060708\<close>, \<open>Time\<close>
  returns \<open>0x0102030405060000\<close>; this is not that value with only its low 48 bits preserved,
  and its high 16 bits are not zero.
\<close>

theorem Time_low48_counterexample:
  "NewFromTime (Some [9, 10, 11, 12, 13, 14]) 0x0102030405060708 =
     Ok [1, 2, 3, 4, 5, 6, 9, 10, 11, 12, 13, 14] \<and>
   Time [1, 2, 3, 4, 5, 6, 9, 10, 11, 12, 13, 14] = Ok 0x0102030405060000 \<and>
   (0x0102030405060000 :: uint64) \<noteq> take_bit 48 (0x0102030405060708 :: uint64) \<and>
   drop_bit 48 (0x0102030405060000 :: uint64) \<noteq> 0"
  by (simp add: NewFromTime_bytes Time_bytes drop_bit_eq_div take_bit_eq_mod)

text \<open>
  C2. What the code does: in \<open>LOW\<close> mode \<open>NewWithConcurrence\<close> returns the identifier of
  \<open>NewFromTime\<close> as it is and only increments the shared counter, because
  \<open>ApplyLowConcurrence\<close> assigns to its own copy of the array. Two calls in immediate
  succession with the same time, whose random bytes begin with the same byte \<open>9\<close>, return
  identifiers with the same \<open>byte[6] = 9\<close>, although the counter values are 1 and 2.
\<close>

theorem NewWithConcurrence_LOW_byte6:
  "NewWithConcurrence LOW t rnd c = bind (NewFromTime rnd t) (\<lambda>ident. Ok (ident, c + 1)) \<and>
   NewWithConcurrence LOW 0x0102030405060708 (Some [9, 10, 11, 12, 13, 14]) 0 =
     Ok ([1, 2, 3, 4, 5, 6, 9, 10, 11, 12, 13, 14], 1) \<and>
   NewWithConcurrence LOW 0x0102030405060708 (Some [9, 20, 21, 22, 23, 24]) 1 =
     Ok ([1, 2, 3, 4, 5, 6, 9, 20, 21, 22, 23, 24], 2)"
  by (simp add: NewWithConcurrence_def LOW_def NANO_def ApplyLowConcurrence_def Let_def
      NewFromTime_bytes bind_def drop_bit_eq_div)

text \<open>
  C3. What the code does: \<open>randUInt64\<close> allocates a buffer of length 2 and reads \<open>b[2]\<close>;
  whatever bytes the random source delivers, the buffer still has length 2 and the call
  panics with an index out of range.
\<close>

theorem randUInt64_index_out_of_range:
  "randUInt64 (Some bs) = Panic IndexOutOfRange \<and>
   length (copy (replicate 2 (0 :: byte)) bs) = 2 \<and>
   at (copy (replicate 2 (0 :: byte)) bs) 2 = Panic IndexOutOfRange"
  by (simp add: randUInt64_def at_def bind_def Let_def length_copy)

section \<open>The encoding preserves the order\<close>

text \<open>
  The order \<open>\<le>\<close> on lists is the lexicographic one (of \<open>List_Lexorder\<close>), in which
  the first differing elements decide and a proper prefix comes first; on byte lists it is
  the order in which Go compares byte slices and strings. Lists of digits below the base,
  of equal length, are ordered lexicographically as the numbers they denote; and a strictly increasing function, applied to every element, keeps
  the lexicographic order of two lists.
\<close>

lemma val_less:
  assumes "\<forall>n \<in> set ns. n < B"
  shows "val B ns < B ^ length ns"
  using assms
proof (induction ns)
  case Nil
  then show ?case by simp
next
  case (Cons n ns)
  then have "n + 1 \<le> B" and "val B ns < B ^ length ns" by simp_all
  then have "n * B ^ length ns + val B ns < (n + 1) * B ^ length ns"
    by simp
  also have "\<dots> \<le> B * B ^ length ns"
    using \<open>n + 1 \<le> B\<close> by (rule mult_le_mono1)
  finally show ?case by simp
qed

lemma val_lex:
  assumes "length xs = length ys"
    and "\<forall>n \<in> set xs. n < B" and "\<forall>n \<in> set ys. n < B"
  shows "xs \<le> ys \<longleftrightarrow> val B xs \<le> val B ys"
  using assms
proof (induction xs ys rule: list_induct2)
  case Nil
  then show ?case by simp
next
  case (Cons x xs y ys)
  let ?P = "B ^ length xs"
  from Cons.prems have b_xs: "\<forall>n \<in> set xs. n < B" and b_ys: "\<forall>n \<in> set ys. n < B"
    by simp_all
  have xs: "val B xs < ?P"
    by (rule val_less [OF b_xs])
  have ys': "val B ys < ?P"
    using val_less [OF b_ys] Cons.hyps by simp
  have IH: "xs \<le> ys \<longleftrightarrow> val B xs \<le> val B ys"
    by (rule Cons.IH [OF b_xs b_ys])
  consider "x < y" | "x = y" | "y < x" by arith
  then show ?case
  proof cases
    case 1
    then have "x + 1 \<le> y" by simp
    then have "(x + 1) * ?P \<le> y * ?P" by (rule mult_le_mono1)
    with xs have "x * ?P + val B xs < y * ?P" by simp
    with 1 Cons.hyps show ?thesis by simp
  next
    case 2
    with IH Cons.hyps show ?thesis by simp
  next
    case 3
    then have "y + 1 \<le> x" by simp
    then have "(y + 1) * ?P \<le> x * ?P" by (rule mult_le_mono1)
    with ys' have "y * ?P + val B ys < x * ?P" by simp
    with 3 Cons.hyps show ?thesis by simp
  qed
qed

lemma map_lex:
  fixes f :: "'a::linorder \<Rightarrow> 'b::linorder"
  assumes mono: "\<And>a b. a \<in> A \<Longrightarrow> b \<in> A \<Longrightarrow> a < b \<Longrightarrow> f a < f b"
    and "set xs \<subseteq> A" and "set ys \<subseteq> A"
  shows "map f xs \<le> map f ys \<longleftrightarrow> xs \<le> ys"
  using assms(2,3)
proof (induction xs arbitrary: ys)
  case Nil
  then show ?case by simp
next
  case (Cons x xs)
  show ?case
  proof (cases ys)
    case Nil
    then show ?thesis by simp
  next
    case (Cons y ys')
    with Cons.prems have x: "x \<in> A" and y: "y \<in> A" and s: "set xs \<subseteq> A" "set ys' \<subseteq> A"
      by simp_all
    have lt: "f x < f y \<longleftrightarrow> x < y"
      using mono [OF x y] mono [OF y x] by (metis less_asym less_irrefl linorder_cases)
    have eq: "f x = f y \<longleftrightarrow> x = y"
      using mono [OF x y] mono [OF y x] by (metis less_irrefl linorder_cases)
    from Cons.IH [OF s] lt eq Cons show ?thesis by simp
  qed
qed

text \<open>
  A byte is the sum of its bits. With it, the twenty quintets of an identifier, read as a
  number in base 32, are the twelve bytes read in base 256, followed by four zero bits.
\<close>

lemma unat_bits:
  "unat (w::byte) =
     of_bool (bit w 0) + 2 * of_bool (bit w 1) + 4 * of_bool (bit w 2) + 8 * of_bool (bit w 3) +
     16 * of_bool (bit w 4) + 32 * of_bool (bit w 5) + 64 * of_bool (bit w 6) +
     128 * of_bool (bit w 7)"
proof -
  have "unat w = take_bit 8 (unat w)"
  proof -
    have "unat w < 2 ^ 8"
      using unsigned_less [of w, where ?'a = nat] by simp
    then show ?thesis by (simp only: take_bit_nat_eq_self)
  qed
  also have "\<dots> = horner_sum of_bool 2 (map (bit (unat w)) [0..<8])"
    by (simp only: horner_sum_bit_eq_take_bit)
  also have "[0..<8] = [0, 1, 2, 3, 4, 5, 6, 7 :: nat]"
    by (simp add: upt_rec [of _ "numeral _"] upt_rec [of 0])
  finally show ?thesis
    by (simp add: bit_unsigned_iff)
qed

lemma val_quintets:
  assumes "length x = 12"
  shows "val 32 (map unat (quintets x)) = 16 * val 256 (map unat x)"
proof -
  from list12 [OF assms]
  obtain a0 a1 a2 a3 a4 a5 a6 a7 a8 a9 a10 a11 where
    x: "x = [a0, a1, a2, a3, a4, a5, a6, a7, a8, a9, a10, a11]"
    by blast
  show ?thesis
    unfolding x quintets_def
    by (simp add: unat_bits mask5 bit_simps byte_high_bit
      numeral_2_eq_2 [symmetric] numeral_3_eq_3 [symmetric] del: push_bit_Suc)
qed

lemma encoding_increasing: "sorted_wrt (<) encoding"
  by (simp add: encoding_bytes)

lemma encoding_nth_mono:
  assumes "i \<in> {..<32}" and "j \<in> {..<32}" and "i < j"
  shows "encoding ! i < encoding ! j"
  using encoding_increasing assms by (simp add: sorted_wrt_iff_nth_less length_encoding)

lemma unat_mono: "a \<in> (UNIV :: byte set) \<Longrightarrow> b \<in> UNIV \<Longrightarrow> a < b \<Longrightarrow> unat a < unat b"
  by (simp add: word_less_nat_alt)

lemma bytes_lex_val:
  assumes "length x = length y"
  shows "(x :: byte list) \<le> y \<longleftrightarrow> val 256 (map unat x) \<le> val 256 (map unat y)"
proof -
  have b: "\<forall>n \<in> set (map unat z). n < 256" for z :: "byte list"
    using unsigned_less [where ?'a = nat and ?'b = 8] by auto
  have "x \<le> y \<longleftrightarrow> map unat x \<le> map unat y"
    by (rule map_lex [where A = UNIV, OF unat_mono, symmetric]) simp_all
  also have "\<dots> \<longleftrightarrow> val 256 (map unat x) \<le> val 256 (map unat y)"
    by (rule val_lex) (simp_all add: assms b)
  finally show ?thesis .
qed

lemma quintets_lex_val:
  "quintets x \<le> quintets y \<longleftrightarrow>
     val 32 (map unat (quintets x)) \<le> val 32 (map unat (quintets y))"
proof -
  have "quintets x \<le> quintets y \<longleftrightarrow> map unat (quintets x) \<le> map unat (quintets y)"
    by (rule map_lex [where A = UNIV, OF unat_mono, symmetric]) simp_all
  also have "\<dots> \<longleftrightarrow> val 32 (map unat (quintets x)) \<le> val 32 (map unat (quintets y))"
    by (rule val_lex) (simp_all add: quintets_small, simp_all add: quintets_def)
  finally show ?thesis .
qed

lemma text_lex_quintets:
  "map (\<lambda>q. encoding ! unat q) (quintets x) \<le> map (\<lambda>q. encoding ! unat q) (quintets y) \<longleftrightarrow>
     quintets x \<le> quintets y"
proof (rule map_lex [where A = "{q. unat q < 32}"])
  fix a b :: byte
  assume "a \<in> {q. unat q < 32}" and "b \<in> {q. unat q < 32}" and "a < b"
  then show "encoding ! unat a < encoding ! unat b"
    by (intro encoding_nth_mono) (simp_all add: word_less_nat_alt)
qed (auto simp add: quintets_small)

text \<open>
  C7. The encoding preserves the order: for all identifiers \<open>x\<close> and \<open>y\<close> of twelve bytes,
  \<open>encode\<close> succeeds on both, and \<open>x\<close> precedes or equals \<open>y\<close> in the lexicographic order of
  byte lists if and only if the text of \<open>x\<close> precedes or equals the text of \<open>y\<close> in the
  lexicographic order of their twenty bytes.
\<close>

theorem encode_order:
  assumes "length x = 12" and "length y = 12" and "length dst = 20" and "length dst' = 20"
  shows "\<exists>s t. encode dst x = Ok s \<and> encode dst' y = Ok t \<and> (x \<le> y \<longleftrightarrow> s \<le> t)"
proof -
  have "x \<le> y \<longleftrightarrow> val 256 (map unat x) \<le> val 256 (map unat y)"
    by (rule bytes_lex_val) (simp add: assms)
  also have "\<dots> \<longleftrightarrow> val 32 (map unat (quintets x)) \<le> val 32 (map unat (quintets y))"
    by (simp add: val_quintets assms)
  also have "\<dots> \<longleftrightarrow> quintets x \<le> quintets y"
    by (rule quintets_lex_val [symmetric])
  also have "\<dots> \<longleftrightarrow>
      map (\<lambda>q. encoding ! unat q) (quintets x) \<le> map (\<lambda>q. encoding ! unat q) (quintets y)"
    by (rule text_lex_quintets [symmetric])
  finally show ?thesis
    using encode_quintets [OF assms(1,3)] encode_quintets [OF assms(2,4)] by simp
qed

theorem encode_order_witness:
  "encode (replicate 20 0) [77, 136, 225, 91, 96, 244, 134, 228, 40, 65, 45, 201] =
     Ok (bytes_of_string ''9m4e2mr0ui3e8a215n4g'') \<and>
   encode (replicate 20 0) [255, 255, 255, 255, 255, 255, 255, 255, 255, 255, 255, 255] =
     Ok (bytes_of_string ''vvvvvvvvvvvvvvvvvvvg'') \<and>
   [77, 136, 225, 91, 96, 244, 134, 228, 40, 65, 45, 201] \<le>
     [255, 255, 255, 255, 255, 255, 255, 255, 255, 255, 255, 255 :: byte] \<and>
   bytes_of_string ''9m4e2mr0ui3e8a215n4g'' \<le> bytes_of_string ''vvvvvvvvvvvvvvvvvvvg''"
proof -
  let ?x = "[77, 136, 225, 91, 96, 244, 134, 228, 40, 65, 45, 201] :: byte list"
  let ?y = "[255, 255, 255, 255, 255, 255, 255, 255, 255, 255, 255, 255] :: byte list"
  have x: "encode (replicate 20 0) ?x = Ok (bytes_of_string ''9m4e2mr0ui3e8a215n4g'')"
    by code_simp
  have y: "encode (replicate 20 0) ?y = Ok (bytes_of_string ''vvvvvvvvvvvvvvvvvvvg'')"
    by code_simp
  have le: "?x \<le> ?y"
    by simp
  from encode_order [of ?x ?y "replicate 20 0" "replicate 20 0"] x y le
  show ?thesis by simp
qed

end
